theory Spec2Isabelle
  imports Main "HOL-Library.Sublist"
begin

section \<open>Strings\<close>

text \<open>
  A JavaScript string is modelled as a \<^typ>\<open>string\<close>: one \<^typ>\<open>char\<close> per code
  unit, restricted to the code units \<open>0..255\<close> (the program reads its input with
  \<^verbatim>\<open>process.stdin.setEncoding("ascii")\<close>). On these code units
  \<^verbatim>\<open>String.prototype.toLowerCase\<close> works character by character: it adds 32 to
  the letters \<open>A..Z\<close> and to the accented capitals \<open>0xC0..0xDE\<close> other than the
  multiplication sign \<open>0xD7\<close>, and leaves every other code unit as it is.
\<close>

definition toLowerCase_char :: "char \<Rightarrow> char" where
  "toLowerCase_char c =
     (let n = (of_char c :: nat)
      in if (65 \<le> n \<and> n \<le> 90) \<or> (192 \<le> n \<and> n \<le> 222 \<and> n \<noteq> 215)
         then char_of (n + 32) else c)"

text \<open>\<^verbatim>\<open>word.toLowerCase()\<close>\<close>

definition toLowerCase :: "string \<Rightarrow> string" where
  "toLowerCase word = map toLowerCase_char word"

section \<open>TrieNode\<close>

text \<open>
  \<^verbatim>\<open>class TrieNode\<close>: the fields \<^verbatim>\<open>children\<close> (an object used as a dictionary
  from a letter to the child node), \<^verbatim>\<open>letter\<close>, \<^verbatim>\<open>hasChildren\<close> and
  \<^verbatim>\<open>isTerminal\<close>. A node owns its children, so the object graph below a node is a
  tree and the node is a value of a datatype. The keys of \<^verbatim>\<open>children\<close> are single
  code units (the letters of \<^verbatim>\<open>word.split('')\<close>), none of which names a property that
  an object inherits. The back pointer \<^verbatim>\<open>parent\<close> is set by the constructor and never
  read; it is left out. The method \<^verbatim>\<open>hasChildren()\<close> is hidden by the field of the
  same name and never called.
\<close>

datatype TrieNode =
  TrieNode (letter: string) (children: "char \<Rightarrow> TrieNode option")
    (hasChildren: bool) (isTerminal: bool)

text \<open>\<^verbatim>\<open>new TrieNode(parent, letter)\<close>.\<close>

definition new_TrieNode :: "string \<Rightarrow> TrieNode" where
  "new_TrieNode l = TrieNode l Map.empty False False"

text \<open>\<^verbatim>\<open>hasChild(letter) { return !!this.children[letter]; }\<close>\<close>

definition hasChild :: "TrieNode \<Rightarrow> char \<Rightarrow> bool" where
  "hasChild node l = (children node l \<noteq> None)"

text \<open>\<^verbatim>\<open>getChild(letter) { return this.children[letter]; }\<close>, \<open>None\<close> for
  \<^verbatim>\<open>undefined\<close>.\<close>

definition getChild :: "TrieNode \<Rightarrow> char \<Rightarrow> TrieNode option" where
  "getChild node l = children node l"

text \<open>\<^verbatim>\<open>setChild(letter, node)\<close>: sets \<^verbatim>\<open>hasChildren\<close> and stores the child.\<close>

definition setChild :: "TrieNode \<Rightarrow> char \<Rightarrow> TrieNode \<Rightarrow> TrieNode" where
  "setChild this l node =
     TrieNode (letter this) ((children this)(l \<mapsto> node)) True (isTerminal this)"

section \<open>Trie\<close>

text \<open>
  The loop of \<^verbatim>\<open>addWord\<close> walks down from \<^verbatim>\<open>current\<close>, creating the missing
  child for each letter, and marks the node it ends on. The source mutates the nodes in
  place; the model returns the node with the subtree below the letter replaced by the
  updated one.
\<close>

fun addWord_loop :: "TrieNode \<Rightarrow> string \<Rightarrow> TrieNode" where
  "addWord_loop current [] =
     TrieNode (letter current) (children current) (hasChildren current) True"
| "addWord_loop current (l # letters) =
     (let current' = (if \<not> hasChild current l
                      then setChild current l (new_TrieNode [l]) else current)
      in case getChild current' l of
           None \<Rightarrow> current'
         | Some child \<Rightarrow>
             TrieNode (letter current') ((children current')(l \<mapsto> addWord_loop child letters))
               (hasChildren current') (isTerminal current'))"

text \<open>A \<^verbatim>\<open>Trie\<close> has the single field \<^verbatim>\<open>root\<close>.\<close>

record Trie =
  root :: TrieNode

text \<open>\<^verbatim>\<open>addWord(word)\<close>: lower-cases the word and runs the loop from the root.\<close>

definition addWord :: "Trie \<Rightarrow> string \<Rightarrow> Trie" where
  "addWord this word = this\<lparr>root := addWord_loop (root this) (toLowerCase word)\<rparr>"

text \<open>\<^verbatim>\<open>constructor(words)\<close>: a fresh root, then \<^verbatim>\<open>addWord\<close> for each word in
  order.\<close>

definition new_Trie :: "string list \<Rightarrow> Trie" where
  "new_Trie words = foldl addWord \<lparr>root = new_TrieNode ''root''\<rparr> words"

text \<open>
  The loop of \<^verbatim>\<open>hasSubString\<close>: \<open>None\<close> is the early \<^verbatim>\<open>return false\<close>,
  \<open>Some current\<close> the node reached when the loop ends.
\<close>

fun hasSubString_loop :: "TrieNode \<Rightarrow> string \<Rightarrow> TrieNode option" where
  "hasSubString_loop current [] = Some current"
| "hasSubString_loop current (l # letters) =
     (if \<not> hasChild current l then None
      else case getChild current l of
             None \<Rightarrow> None
           | Some child \<Rightarrow> hasSubString_loop child letters)"

text \<open>\<^verbatim>\<open>hasSubString(word, isTerminal)\<close>; a call with one argument passes
  \<^verbatim>\<open>undefined\<close>, which is falsy: \<open>False\<close> here.\<close>

definition hasSubString :: "Trie \<Rightarrow> string \<Rightarrow> bool \<Rightarrow> bool" where
  "hasSubString this word wantTerminal =
     (case hasSubString_loop (root this) (toLowerCase word) of
        None \<Rightarrow> False
      | Some current \<Rightarrow> if wantTerminal then isTerminal current else True)"

section \<open>BoggleGame\<close>

text \<open>
  \<^verbatim>\<open>class BoggleGame\<close>: the fields set by the constructor. Numbers are modelled as
  \<^typ>\<open>int\<close>; the cells of the board are strings (one letter each when the board comes
  from \<^verbatim>\<open>processData\<close>).
\<close>

record BoggleGame =
  width :: int
  height :: int
  board :: "string list"
  dictionary :: "string list"
  trie :: Trie

text \<open>\<^verbatim>\<open>constructor(width, height, board, dictionary)\<close>: stores its arguments and builds
  the trie from the dictionary.\<close>

definition new_BoggleGame :: "int \<Rightarrow> int \<Rightarrow> string list \<Rightarrow> string list \<Rightarrow> BoggleGame" where
  "new_BoggleGame w h b d =
     \<lparr>width = w, height = h, board = b, dictionary = d, trie = new_Trie d\<rparr>"

text \<open>\<^verbatim>\<open>isValidCell(i) { return i >= 0 && i < this.board.length; }\<close>\<close>

definition isValidCell :: "BoggleGame \<Rightarrow> int \<Rightarrow> bool" where
  "isValidCell this i = (i \<ge> 0 \<and> i < int (length (board this)))"

text \<open>\<^verbatim>\<open>getAdjacent(i)\<close>: the eight candidates in the order of the source, filtered by
  \<^verbatim>\<open>isValidCell\<close>.\<close>

definition getAdjacent :: "BoggleGame \<Rightarrow> int \<Rightarrow> int list" where
  "getAdjacent this i =
     filter (\<lambda>j. isValidCell this j)
       [i - (width this + 1),
        i - (width this),
        i - (width this - 1),
        i - 1,
        i + 1,
        i + (width this - 1),
        i + (width this),
        i + (width this + 1)]"

text \<open>
  \<^verbatim>\<open>this.board[nextCell]\<close>: the element at an index inside the array,
  \<^verbatim>\<open>undefined\<close> (\<open>None\<close>) elsewhere. Appended to a string, \<^verbatim>\<open>undefined\<close> is the
  text \<^verbatim>\<open>"undefined"\<close>.
\<close>

definition board_at :: "string list \<Rightarrow> int \<Rightarrow> string option" where
  "board_at b i = (if 0 \<le> i \<and> i < int (length b) then Some (b ! nat i) else None)"

text \<open>\<^verbatim>\<open>currentWord + nextLetter\<close>\<close>

definition append_letter :: "string \<Rightarrow> string option \<Rightarrow> string" where
  "append_letter currentWord nextLetter =
     currentWord @ (case nextLetter of None \<Rightarrow> ''undefined'' | Some l \<Rightarrow> l)"

section \<open>The search\<close>

text \<open>
  What a call of \<^verbatim>\<open>solve\<close> can read and write: the game object, the array
  \<^verbatim>\<open>path\<close> handed down the recursion of \<^verbatim>\<open>backTrack\<close> (one array, pushed and
  popped in place), and the array \<^verbatim>\<open>words\<close> that the callback \<^verbatim>\<open>foundWord\<close>
  closes over.
\<close>

record solver_state =
  game :: BoggleGame
  path :: "int list"
  words :: "string list"

text \<open>The callback defined in \<^verbatim>\<open>solve\<close>; \<^verbatim>\<open>backTrack\<close> is never given another.
  \<^verbatim>\<open>if (words.indexOf(word) !== -1) return; words.push(word)\<close>\<close>

definition foundWord :: "string \<Rightarrow> solver_state \<Rightarrow> solver_state" where
  "foundWord word s = (if word \<in> set (words s) then s else s\<lparr>words := words s @ [word]\<rparr>)"

text \<open>
  \<^verbatim>\<open>backTrack(currentWord, currentCell, path, depth, foundWord)\<close> and its
  \<^verbatim>\<open>for (const nextCell of adjacent)\<close> loop. The first argument bounds the depth of the
  recursion: a call that would need more returns \<open>None\<close>. \<^verbatim>\<open>path.push(nextCell)\<close>
  appends to the path of the state, \<^verbatim>\<open>path.pop()\<close> drops its last element.
\<close>

fun backTrack :: "nat \<Rightarrow> string \<Rightarrow> int \<Rightarrow> int \<Rightarrow> solver_state \<Rightarrow> solver_state option"
  and backTrack_loop :: "nat \<Rightarrow> string \<Rightarrow> int \<Rightarrow> int list \<Rightarrow> solver_state \<Rightarrow> solver_state option"
where
  "backTrack 0 currentWord currentCell depth s = None"
| "backTrack (Suc fuel) currentWord currentCell depth s =
     (let s1 = (if length currentWord \<ge> 3 \<and> hasSubString (trie (game s)) currentWord True
                then foundWord currentWord s else s);
          depth' = depth + 1;
          adjacent = getAdjacent (game s1) currentCell
      in backTrack_loop fuel currentWord depth' adjacent s1)"
| "backTrack_loop fuel currentWord depth [] s = Some s"
| "backTrack_loop fuel currentWord depth (nextCell # adjacent) s =
     (if nextCell \<in> set (path s) then backTrack_loop fuel currentWord depth adjacent s
      else let nextLetter = board_at (board (game s)) nextCell;
               nextWord = append_letter currentWord nextLetter
           in if \<not> hasSubString (trie (game s)) nextWord False
              then backTrack_loop fuel currentWord depth adjacent s
              else (case backTrack fuel nextWord nextCell depth (s\<lparr>path := path s @ [nextCell]\<rparr>) of
                      None \<Rightarrow> None
                    | Some s' \<Rightarrow>
                        backTrack_loop fuel currentWord depth adjacent
                          (s'\<lparr>path := butlast (path s')\<rparr>)))"

text \<open>
  \<^verbatim>\<open>this.board.forEach((letter, i) => { this.backTrack(letter, i, [], 0, foundWord); })\<close>
  over the cells paired with their indices; every call gets a fresh empty path.
\<close>

fun forEach_board :: "nat \<Rightarrow> (string \<times> int) list \<Rightarrow> solver_state \<Rightarrow> solver_state option" where
  "forEach_board fuel [] s = Some s"
| "forEach_board fuel ((l, i) # rest) s =
     (case backTrack fuel l i 0 (s\<lparr>path := []\<rparr>) of
        None \<Rightarrow> None
      | Some s' \<Rightarrow> forEach_board fuel rest s')"

text \<open>
  \<^verbatim>\<open>solve()\<close> with a bound on the depth of the recursion: the list it returns,
  together with the game object as the call leaves it.
\<close>

definition solve_fuel :: "nat \<Rightarrow> BoggleGame \<Rightarrow> (string list \<times> BoggleGame) option" where
  "solve_fuel fuel this =
     (case forEach_board fuel (zip (board this) (map int [0..<length (board this)]))
             \<lparr>game = this, path = [], words = []\<rparr> of
        None \<Rightarrow> None
      | Some s \<Rightarrow> Some (words s, game s))"

text \<open>
  \<^verbatim>\<open>solve()\<close>. A path never holds a cell twice, so the recursion is never deeper than
  the number of cells plus one (\<open>solve_fuel_enough\<close> below: every larger bound gives the
  same result).
\<close>

definition solve :: "BoggleGame \<Rightarrow> (string list \<times> BoggleGame) option" where
  "solve this = solve_fuel (Suc (length (board this))) this"

section \<open>The calls a search makes\<close>

text \<open>
  The two tests of the loop body of \<^verbatim>\<open>backTrack\<close> that a neighbour has to pass
  before the recursive call: it is not on the path, and the word extended by its letter is
  a prefix in the trie.
\<close>

definition extends :: "BoggleGame \<Rightarrow> string \<Rightarrow> int list \<Rightarrow> int \<Rightarrow> bool" where
  "extends g currentWord p nextCell \<longleftrightarrow>
     nextCell \<notin> set p \<and>
     hasSubString (trie g) (append_letter currentWord (board_at (board g) nextCell)) False"

text \<open>
  \<open>calls g w0 c0 p0 w c p\<close>: the call of \<^verbatim>\<open>backTrack\<close> with the word \<open>w0\<close>, the
  cell \<open>c0\<close> and the path array holding \<open>p0\<close> is, or leads through its recursive calls
  to, the call with the word \<open>w\<close>, the cell \<open>c\<close> and the path array holding \<open>p\<close>.
\<close>

inductive calls :: "BoggleGame \<Rightarrow> string \<Rightarrow> int \<Rightarrow> int list \<Rightarrow> string \<Rightarrow> int \<Rightarrow> int list \<Rightarrow> bool"
  for g :: BoggleGame where
  calls_self: "calls g w c p w c p"
| calls_step:
    "nextCell \<in> set (getAdjacent g c0) \<Longrightarrow> extends g w0 p0 nextCell \<Longrightarrow>
     calls g (append_letter w0 (board_at (board g) nextCell)) nextCell (p0 @ [nextCell]) w c p \<Longrightarrow>
     calls g w0 c0 p0 w c p"

text \<open>
  \<open>visits g start w c p\<close>: the search that \<^verbatim>\<open>solve\<close> starts at the cell
  \<open>start\<close> (with the letter of that cell and an empty path array) makes the call of
  \<^verbatim>\<open>backTrack\<close> with the word \<open>w\<close>, the cell \<open>c\<close> and the path array holding
  \<open>p\<close>. The cells the word was formed from are \<open>start\<close> followed by \<open>p\<close>.
\<close>

definition visits :: "BoggleGame \<Rightarrow> int \<Rightarrow> string \<Rightarrow> int \<Rightarrow> int list \<Rightarrow> bool" where
  "visits g start currentWord currentCell p \<longleftrightarrow>
     (\<exists>l. board_at (board g) start = Some l \<and> calls g l start [] currentWord currentCell p)"

text \<open>The text that a cell adds to a word.\<close>

definition cell_text :: "BoggleGame \<Rightarrow> int \<Rightarrow> string" where
  "cell_text g n = append_letter [] (board_at (board g) n)"

text \<open>The word formed from a sequence of cells.\<close>

definition spell :: "BoggleGame \<Rightarrow> int list \<Rightarrow> string" where
  "spell g cells = concat (map (cell_text g) cells)"

section \<open>Notions used in the proofs\<close>

text \<open>The node that the letters lead to from a node exists.\<close>

definition reaches :: "TrieNode \<Rightarrow> string \<Rightarrow> bool" where
  "reaches node letters = (hasSubString_loop node letters \<noteq> None)"

text \<open>The node that the letters lead to from a node exists and is terminal.\<close>

definition accepts :: "TrieNode \<Rightarrow> string \<Rightarrow> bool" where
  "accepts node letters =
     (case hasSubString_loop node letters of
        None \<Rightarrow> False
      | Some current \<Rightarrow> isTerminal current)"

text \<open>The test that guards the call of the callback in \<^verbatim>\<open>backTrack\<close>.\<close>

definition emits :: "solver_state \<Rightarrow> string \<Rightarrow> bool" where
  "emits s currentWord =
     (length currentWord \<ge> 3 \<and> hasSubString (trie (game s)) currentWord True)"

text \<open>
  What a call of \<^verbatim>\<open>backTrack\<close> may do to the state: the game and the path are as
  before, the words found are the old ones followed by new ones, no word is listed twice
  if none was, and every new word passed the guard.
\<close>

definition step_ok :: "solver_state \<Rightarrow> solver_state \<Rightarrow> bool" where
  "step_ok s s' \<longleftrightarrow>
     game s' = game s \<and> path s' = path s \<and> prefix (words s) (words s') \<and>
     (distinct (words s) \<longrightarrow> distinct (words s')) \<and>
     (\<forall>w \<in> set (words s'). w \<in> set (words s) \<or> emits s w)"

text \<open>The number of cells of the board that are not on the path.\<close>

definition unvisited :: "solver_state \<Rightarrow> nat" where
  "unvisited s = card ({j. isValidCell (game s) j} - set (path s))"

text \<open>The words that pass the guard of the callback in a call or in the calls it leads to.\<close>

definition found_from :: "BoggleGame \<Rightarrow> string \<Rightarrow> int \<Rightarrow> int list \<Rightarrow> string set" where
  "found_from g w0 c0 p0 =
     {w. \<exists>c p. calls g w0 c0 p0 w c p \<and> 3 \<le> length w \<and> hasSubString (trie g) w True}"

text \<open>The same for the recursive calls that the loop makes for a list of neighbours.\<close>

definition found_below :: "BoggleGame \<Rightarrow> string \<Rightarrow> int list \<Rightarrow> int list \<Rightarrow> string set" where
  "found_below g w0 p0 adjacent =
     (\<Union>n \<in> {n \<in> set adjacent. extends g w0 p0 n}.
        found_from g (append_letter w0 (board_at (board g) n)) n (p0 @ [n]))"

section \<open>Example games\<close>

text \<open>Scenario 1 of the specification: a 2x2 board.\<close>

definition scenario1 :: BoggleGame where
  "scenario1 = new_BoggleGame 2 2 [''a'', ''b'', ''c'', ''d''] [''ab'', ''abc'', ''abd'', ''xyz'']"

text \<open>A row of three capital letters; the dictionary has the word in lower case.\<close>

definition upper_board :: BoggleGame where
  "upper_board = new_BoggleGame 3 1 [''A'', ''B'', ''C''] [''abc'']"

text \<open>The 2x2 board again; the dictionary word needs the letter \<open>a\<close> twice, and the
  board has it once.\<close>

definition revisit_board :: BoggleGame where
  "revisit_board = new_BoggleGame 2 2 [''a'', ''b'', ''c'', ''d''] [''aba'']"

text \<open>A 2x2 board on which \<open>abc\<close> can be traced through either \<open>b\<close>.\<close>

definition two_paths :: BoggleGame where
  "two_paths = new_BoggleGame 2 2 [''a'', ''b'', ''b'', ''c''] [''abc'']"

text \<open>A board of two rows of three cells, with an empty dictionary.\<close>

definition wrap_board :: BoggleGame where
  "wrap_board = new_BoggleGame 3 2 [''a'', ''b'', ''c'', ''d'', ''e'', ''f''] []"

text \<open>A board of one column and two rows.\<close>

definition one_column :: BoggleGame where
  "one_column = new_BoggleGame 1 2 [''a'', ''b''] [''aab'']"

section \<open>The trie holds the words added to it\<close>

lemma hasSubString_loop_Cons:
  "hasSubString_loop current (l # letters) =
     (case children current l of None \<Rightarrow> None | Some child \<Rightarrow> hasSubString_loop child letters)"
  by (simp add: hasChild_def getChild_def split: option.splits)

lemma addWord_loop_Cons:
  "addWord_loop current (l # letters) =
     TrieNode (letter current)
       ((children current)(l \<mapsto> addWord_loop
          (case children current l of None \<Rightarrow> new_TrieNode [l] | Some child \<Rightarrow> child) letters))
       (hasChildren current \<or> children current l = None) (isTerminal current)"
  by (auto simp add: hasChild_def getChild_def setChild_def Let_def split: option.splits)

declare hasSubString_loop.simps(2) [simp del] addWord_loop.simps(2) [simp del]

lemma reaches_new: "reaches (new_TrieNode l) qs \<longleftrightarrow> qs = []"
  by (cases qs) (simp_all add: reaches_def hasSubString_loop_Cons new_TrieNode_def)

lemma accepts_new: "\<not> accepts (new_TrieNode l) qs"
  by (cases qs) (simp_all add: accepts_def hasSubString_loop_Cons new_TrieNode_def)

lemma reaches_addWord_loop:
  "reaches (addWord_loop node ws) qs \<longleftrightarrow> reaches node qs \<or> prefix qs ws"
proof (induction ws arbitrary: node qs)
  case Nil
  then show ?case by (cases qs) (simp_all add: reaches_def hasSubString_loop_Cons)
next
  case (Cons w ws)
  show ?case
  proof (cases qs)
    case Nil
    then show ?thesis by (simp add: reaches_def)
  next
    case (Cons q qs')
    show ?thesis
    proof (cases "q = w")
      case True
      have "reaches (addWord_loop node (w # ws)) (w # qs') \<longleftrightarrow>
            reaches (addWord_loop (case children node w of None \<Rightarrow> new_TrieNode [w] | Some c \<Rightarrow> c) ws) qs'"
        by (simp add: reaches_def hasSubString_loop_Cons addWord_loop_Cons)
      also have "\<dots> \<longleftrightarrow> reaches (case children node w of None \<Rightarrow> new_TrieNode [w] | Some c \<Rightarrow> c) qs' \<or> prefix qs' ws"
        by (rule Cons.IH)
      also have "\<dots> \<longleftrightarrow> reaches node (w # qs') \<or> prefix (w # qs') (w # ws)"
        by (cases "children node w") (auto simp add: reaches_new, simp_all add: reaches_def hasSubString_loop_Cons)
      finally show ?thesis using Cons True by simp
    next
      case False
      then show ?thesis using Cons
        by (simp add: reaches_def hasSubString_loop_Cons addWord_loop_Cons)
    qed
  qed
qed

lemma accepts_addWord_loop:
  "accepts (addWord_loop node ws) qs \<longleftrightarrow> accepts node qs \<or> qs = ws"
proof (induction ws arbitrary: node qs)
  case Nil
  then show ?case by (cases qs) (simp_all add: accepts_def hasSubString_loop_Cons)
next
  case (Cons w ws)
  show ?case
  proof (cases qs)
    case Nil
    then show ?thesis by (simp add: accepts_def addWord_loop_Cons)
  next
    case (Cons q qs')
    show ?thesis
    proof (cases "q = w")
      case True
      have "accepts (addWord_loop node (w # ws)) (w # qs') \<longleftrightarrow>
            accepts (addWord_loop (case children node w of None \<Rightarrow> new_TrieNode [w] | Some c \<Rightarrow> c) ws) qs'"
        by (simp add: accepts_def hasSubString_loop_Cons addWord_loop_Cons)
      also have "\<dots> \<longleftrightarrow> accepts (case children node w of None \<Rightarrow> new_TrieNode [w] | Some c \<Rightarrow> c) qs' \<or> qs' = ws"
        by (rule Cons.IH)
      also have "\<dots> \<longleftrightarrow> accepts node (w # qs') \<or> w # qs' = w # ws"
        by (cases "children node w") (auto simp add: accepts_new, simp_all add: accepts_def hasSubString_loop_Cons)
      finally show ?thesis using Cons True by simp
    next
      case False
      then show ?thesis using Cons
        by (simp add: accepts_def hasSubString_loop_Cons addWord_loop_Cons)
    qed
  qed
qed

lemma reaches_foldl_addWord:
  "reaches (root (foldl addWord t ws)) qs \<longleftrightarrow>
     reaches (root t) qs \<or> (\<exists>w \<in> set ws. prefix qs (toLowerCase w))"
  by (induction ws arbitrary: t) (auto simp add: addWord_def reaches_addWord_loop)

lemma accepts_foldl_addWord:
  "accepts (root (foldl addWord t ws)) qs \<longleftrightarrow>
     accepts (root t) qs \<or> qs \<in> toLowerCase ` set ws"
  by (induction ws arbitrary: t) (auto simp add: addWord_def accepts_addWord_loop)

lemma hasSubString_prefix_iff:
  "hasSubString (new_Trie ws) q False \<longleftrightarrow>
     q = [] \<or> (\<exists>w \<in> set ws. prefix (toLowerCase q) (toLowerCase w))"
proof -
  have "hasSubString (new_Trie ws) q False \<longleftrightarrow> reaches (root (new_Trie ws)) (toLowerCase q)"
    by (simp add: hasSubString_def reaches_def split: option.splits)
  then show ?thesis
    by (auto simp add: new_Trie_def reaches_foldl_addWord reaches_new toLowerCase_def)
qed

lemma hasSubString_terminal_iff:
  "hasSubString (new_Trie ws) q True \<longleftrightarrow> toLowerCase q \<in> toLowerCase ` set ws"
proof -
  have "hasSubString (new_Trie ws) q True \<longleftrightarrow> accepts (root (new_Trie ws)) (toLowerCase q)"
    by (simp add: hasSubString_def accepts_def split: option.splits)
  then show ?thesis
    by (simp add: new_Trie_def accepts_foldl_addWord accepts_new)
qed

lemma toLowerCase_Nil_iff: "toLowerCase w = [] \<longleftrightarrow> w = []"
  by (simp add: toLowerCase_def)

lemma Nil_in_toLowerCase_image: "[] \<in> toLowerCase ` A \<longleftrightarrow> [] \<in> A"
proof
  assume "[] \<in> toLowerCase ` A"
  then obtain w where w: "w \<in> A" "toLowerCase w = []"
    by (metis imageE)
  then have "w = []"
    by (simp add: toLowerCase_def)
  with w show "[] \<in> A" by simp
next
  assume "[] \<in> A"
  then have "toLowerCase [] \<in> toLowerCase ` A"
    by (rule imageI)
  then show "[] \<in> toLowerCase ` A"
    by (simp add: toLowerCase_def)
qed

lemma new_Trie_append: "foldl addWord (new_Trie ws) vs = new_Trie (ws @ vs)"
  by (simp add: new_Trie_def)

lemma toLowerCase_prefix: "prefix p w \<Longrightarrow> prefix (toLowerCase p) (toLowerCase w)"
  unfolding toLowerCase_def by (rule map_mono_prefix)

lemma toLowerCase_concat: "toLowerCase (concat xs) = concat (map toLowerCase xs)"
  by (induction xs) (simp_all add: toLowerCase_def)

section \<open>What a search does to the state\<close>

lemma foundWord_game [simp]: "game (foundWord w s) = game s"
  by (simp add: foundWord_def)

lemma foundWord_path [simp]: "path (foundWord w s) = path s"
  by (simp add: foundWord_def)

lemma foundWord_words: "set (words (foundWord w s)) = insert w (set (words s))"
  by (auto simp add: foundWord_def)

lemma foundWord_again: "w \<in> set (words s) \<Longrightarrow> foundWord w s = s"
  by (simp add: foundWord_def)

declare backTrack.simps(2) [simp del] backTrack_loop.simps(2) [simp del]

text \<open>The loop, one equation for each way through its body.\<close>

lemma backTrack_loop_visited:
  "nextCell \<in> set (path s) \<Longrightarrow>
   backTrack_loop fuel currentWord depth (nextCell # adjacent) s =
   backTrack_loop fuel currentWord depth adjacent s"
  by (simp add: backTrack_loop.simps(2))

lemma backTrack_loop_pruned:
  "nextCell \<notin> set (path s) \<Longrightarrow>
   \<not> hasSubString (trie (game s))
        (append_letter currentWord (board_at (board (game s)) nextCell)) False \<Longrightarrow>
   backTrack_loop fuel currentWord depth (nextCell # adjacent) s =
   backTrack_loop fuel currentWord depth adjacent s"
  by (simp add: backTrack_loop.simps(2))

lemma backTrack_loop_recurse:
  "nextCell \<notin> set (path s) \<Longrightarrow>
   hasSubString (trie (game s))
     (append_letter currentWord (board_at (board (game s)) nextCell)) False \<Longrightarrow>
   backTrack_loop fuel currentWord depth (nextCell # adjacent) s =
   (case backTrack fuel (append_letter currentWord (board_at (board (game s)) nextCell))
           nextCell depth (s\<lparr>path := path s @ [nextCell]\<rparr>) of
      None \<Rightarrow> None
    | Some s' \<Rightarrow> backTrack_loop fuel currentWord depth adjacent (s'\<lparr>path := butlast (path s')\<rparr>))"
  by (simp add: backTrack_loop.simps(2))

lemma backTrack_Suc:
  "backTrack (Suc fuel) currentWord currentCell depth s =
   backTrack_loop fuel currentWord (depth + 1) (getAdjacent (game s) currentCell)
     (if emits s currentWord then foundWord currentWord s else s)"
  by (simp add: backTrack.simps(2) emits_def Let_def)

lemma step_ok_refl: "step_ok s s"
  by (simp add: step_ok_def)

lemma step_ok_trans: "step_ok s s1 \<Longrightarrow> step_ok s1 s2 \<Longrightarrow> step_ok s s2"
  unfolding step_ok_def emits_def by (auto intro: prefix_order.trans)

lemma step_ok_foundWord: "emits s w \<Longrightarrow> step_ok s (foundWord w s)"
  by (auto simp add: step_ok_def foundWord_def)

lemma step_ok_push_pop:
  assumes "step_ok (s\<lparr>path := path s @ [c]\<rparr>) s1"
  shows "step_ok s (s1\<lparr>path := butlast (path s1)\<rparr>)"
  using assms by (simp add: step_ok_def emits_def)

lemma backTrack_loop_step_ok:
  assumes IH: "\<And>w c d s s'. backTrack fuel w c d s = Some s' \<Longrightarrow> step_ok s s'"
  shows "backTrack_loop fuel currentWord depth adjacent s = Some s' \<Longrightarrow> step_ok s s'"
proof (induction adjacent arbitrary: s)
  case Nil
  then show ?case by (simp add: step_ok_refl)
next
  case (Cons nextCell adjacent)
  let ?nextWord = "append_letter currentWord (board_at (board (game s)) nextCell)"
  consider (visited) "nextCell \<in> set (path s)"
    | (pruned) "nextCell \<notin> set (path s)" "\<not> hasSubString (trie (game s)) ?nextWord False"
    | (recurse) "nextCell \<notin> set (path s)" "hasSubString (trie (game s)) ?nextWord False"
    by blast
  then show ?case
  proof cases
    case visited
    then show ?thesis using Cons by (simp add: backTrack_loop_visited)
  next
    case pruned
    then show ?thesis using Cons by (simp add: backTrack_loop_pruned)
  next
    case recurse
    with Cons.prems obtain s1 where
      s1: "backTrack fuel ?nextWord nextCell depth (s\<lparr>path := path s @ [nextCell]\<rparr>) = Some s1"
      and rest: "backTrack_loop fuel currentWord depth adjacent (s1\<lparr>path := butlast (path s1)\<rparr>) = Some s'"
      by (auto simp add: backTrack_loop_recurse split: option.splits)
    have "step_ok s (s1\<lparr>path := butlast (path s1)\<rparr>)"
      by (rule step_ok_push_pop) (rule IH[OF s1])
    moreover have "step_ok (s1\<lparr>path := butlast (path s1)\<rparr>) s'"
      by (rule Cons.IH[OF rest])
    ultimately show ?thesis by (rule step_ok_trans)
  qed
qed

lemma backTrack_step_ok:
  "backTrack fuel currentWord currentCell depth s = Some s' \<Longrightarrow> step_ok s s'"
proof (induction fuel arbitrary: currentWord currentCell depth s s')
  case 0
  then show ?case by simp
next
  case (Suc fuel)
  let ?s1 = "if emits s currentWord then foundWord currentWord s else s"
  have a: "step_ok s ?s1"
    by (simp add: step_ok_refl step_ok_foundWord)
  have "backTrack_loop fuel currentWord (depth + 1) (getAdjacent (game s) currentCell) ?s1 = Some s'"
    using Suc.prems by (simp add: backTrack_Suc)
  then have "step_ok ?s1 s'"
    by (rule backTrack_loop_step_ok[rotated]) (rule Suc.IH)
  with a show ?case by (rule step_ok_trans)
qed

text \<open>The loop of \<^verbatim>\<open>solve\<close>.\<close>

lemma forEach_board_step_ok:
  "forEach_board fuel cells s = Some s' \<Longrightarrow>
   game s' = game s \<and> prefix (words s) (words s') \<and>
   (distinct (words s) \<longrightarrow> distinct (words s')) \<and>
   (\<forall>w \<in> set (words s'). w \<in> set (words s) \<or> emits s w)"
proof (induction cells arbitrary: s)
  case Nil
  then show ?case by simp
next
  case (Cons cell cells)
  obtain l i where cell: "cell = (l, i)" by (cases cell)
  with Cons.prems obtain s1 where
    s1: "backTrack fuel l i 0 (s\<lparr>path := []\<rparr>) = Some s1"
    and rest: "forEach_board fuel cells s1 = Some s'"
    by (auto split: option.splits)
  have "step_ok (s\<lparr>path := []\<rparr>) s1"
    by (rule backTrack_step_ok[OF s1])
  then have a: "game s1 = game s" "prefix (words s) (words s1)"
    "distinct (words s) \<longrightarrow> distinct (words s1)"
    "\<forall>w \<in> set (words s1). w \<in> set (words s) \<or> emits s w"
    by (simp_all add: step_ok_def emits_def)
  have b: "game s' = game s1" "prefix (words s1) (words s')"
    "distinct (words s1) \<longrightarrow> distinct (words s')"
    "\<forall>w \<in> set (words s'). w \<in> set (words s1) \<or> emits s1 w"
    using Cons.IH[OF rest] by simp_all
  have "prefix (words s) (words s')"
    using a(2) b(2) by (rule prefix_order.trans)
  moreover have "\<forall>w \<in> set (words s'). w \<in> set (words s) \<or> emits s w"
    using a(1,4) b(4) by (auto simp add: emits_def)
  ultimately show ?case using a(1,3) b(1,3) by simp
qed

section \<open>The search returns\<close>

lemma finite_valid: "finite {j. isValidCell g j}"
proof -
  have "{j. isValidCell g j} = {0..<int (length (board g))}"
    by (auto simp add: isValidCell_def)
  then show ?thesis by simp
qed

lemma card_valid: "card {j. isValidCell g j} = length (board g)"
proof -
  have "{j. isValidCell g j} = {0..<int (length (board g))}"
    by (auto simp add: isValidCell_def)
  then show ?thesis by simp
qed

lemma unvisited_push:
  assumes "isValidCell (game s) c" "c \<notin> set (path s)"
  shows "unvisited (s\<lparr>path := path s @ [c]\<rparr>) < unvisited s"
proof -
  define A where "A = {j. isValidCell (game s) j} - set (path s)"
  have "{j. isValidCell (game s) j} - set (path s @ [c]) = A - {c}"
    by (auto simp add: A_def)
  then have l: "unvisited (s\<lparr>path := path s @ [c]\<rparr>) = card (A - {c})"
    by (simp add: unvisited_def)
  have r: "unvisited s = card A"
    by (simp add: unvisited_def A_def)
  have "c \<in> A"
    using assms by (simp add: A_def)
  moreover have "finite A"
    by (simp add: A_def finite_valid)
  ultimately have "card (A - {c}) < card A"
    by (intro card_Diff1_less)
  with l r show ?thesis by simp
qed

lemma unvisited_empty_path: "unvisited (s\<lparr>path := []\<rparr>) = length (board (game s))"
  by (simp add: unvisited_def card_valid)

lemma in_filterD: "c \<in> set (filter P xs) \<Longrightarrow> P c"
  by simp

lemma getAdjacent_valid: "c \<in> set (getAdjacent g i) \<Longrightarrow> isValidCell g c"
  unfolding getAdjacent_def by (rule in_filterD)

lemma backTrack_loop_returns:
  assumes IH: "\<And>w c d s. unvisited s < fuel \<Longrightarrow> backTrack fuel w c d s \<noteq> None"
  shows "\<forall>c \<in> set adjacent. isValidCell (game s) c \<Longrightarrow> unvisited s \<le> fuel \<Longrightarrow>
         backTrack_loop fuel currentWord depth adjacent s \<noteq> None"
proof (induction adjacent arbitrary: s)
  case Nil
  then show ?case by simp
next
  case (Cons nextCell adjacent)
  let ?nextWord = "append_letter currentWord (board_at (board (game s)) nextCell)"
  have rest: "backTrack_loop fuel currentWord depth adjacent s \<noteq> None"
    using Cons by simp
  consider (visited) "nextCell \<in> set (path s)"
    | (pruned) "nextCell \<notin> set (path s)" "\<not> hasSubString (trie (game s)) ?nextWord False"
    | (recurse) "nextCell \<notin> set (path s)" "hasSubString (trie (game s)) ?nextWord False"
    by blast
  then show ?case
  proof cases
    case visited
    then show ?thesis using rest by (simp add: backTrack_loop_visited)
  next
    case pruned
    then show ?thesis using rest by (simp add: backTrack_loop_pruned)
  next
    case recurse
    have "unvisited (s\<lparr>path := path s @ [nextCell]\<rparr>) < unvisited s"
      using Cons.prems(1) recurse(1) by (simp add: unvisited_push)
    then have "unvisited (s\<lparr>path := path s @ [nextCell]\<rparr>) < fuel"
      using Cons.prems(2) by simp
    then obtain s1 where
      s1: "backTrack fuel ?nextWord nextCell depth (s\<lparr>path := path s @ [nextCell]\<rparr>) = Some s1"
      using IH by blast
    let ?s2 = "s1\<lparr>path := butlast (path s1)\<rparr>"
    have "step_ok s ?s2"
      by (rule step_ok_push_pop) (rule backTrack_step_ok[OF s1])
    then have same: "game ?s2 = game s" "path ?s2 = path s"
      by (simp_all add: step_ok_def)
    then have "unvisited ?s2 = unvisited s"
      by (simp add: unvisited_def)
    then have "backTrack_loop fuel currentWord depth adjacent ?s2 \<noteq> None"
      using Cons.prems same by (intro Cons.IH) simp_all
    then show ?thesis using recurse s1 by (simp add: backTrack_loop_recurse)
  qed
qed

lemma backTrack_returns:
  "unvisited s < fuel \<Longrightarrow> backTrack fuel currentWord currentCell depth s \<noteq> None"
proof (induction fuel arbitrary: currentWord currentCell depth s)
  case 0
  then show ?case by simp
next
  case (Suc fuel)
  let ?s1 = "if emits s currentWord then foundWord currentWord s else s"
  have same: "game ?s1 = game s" "path ?s1 = path s"
    by simp_all
  then have "unvisited ?s1 = unvisited s"
    by (simp add: unvisited_def)
  then have "unvisited ?s1 \<le> fuel"
    using Suc.prems by simp
  moreover have "\<forall>c \<in> set (getAdjacent (game s) currentCell). isValidCell (game ?s1) c"
    using same by (simp add: getAdjacent_valid)
  ultimately have
    "backTrack_loop fuel currentWord (depth + 1) (getAdjacent (game s) currentCell) ?s1 \<noteq> None"
    by (intro backTrack_loop_returns Suc.IH)
  then show ?case by (simp add: backTrack_Suc)
qed

text \<open>A larger bound changes nothing once a call has returned.\<close>

lemma backTrack_loop_more_fuel:
  assumes IH: "\<And>w c d s s'. backTrack fuel w c d s = Some s' \<Longrightarrow> backTrack (Suc fuel) w c d s = Some s'"
  shows "backTrack_loop fuel currentWord depth adjacent s = Some s' \<Longrightarrow>
         backTrack_loop (Suc fuel) currentWord depth adjacent s = Some s'"
proof (induction adjacent arbitrary: s)
  case Nil
  then show ?case by simp
next
  case (Cons nextCell adjacent)
  let ?nextWord = "append_letter currentWord (board_at (board (game s)) nextCell)"
  consider (visited) "nextCell \<in> set (path s)"
    | (pruned) "nextCell \<notin> set (path s)" "\<not> hasSubString (trie (game s)) ?nextWord False"
    | (recurse) "nextCell \<notin> set (path s)" "hasSubString (trie (game s)) ?nextWord False"
    by blast
  then show ?case
  proof cases
    case visited
    then show ?thesis using Cons by (simp add: backTrack_loop_visited)
  next
    case pruned
    then show ?thesis using Cons by (simp add: backTrack_loop_pruned)
  next
    case recurse
    with Cons.prems obtain s1 where
      s1: "backTrack fuel ?nextWord nextCell depth (s\<lparr>path := path s @ [nextCell]\<rparr>) = Some s1"
      and rest: "backTrack_loop fuel currentWord depth adjacent (s1\<lparr>path := butlast (path s1)\<rparr>) = Some s'"
      by (auto simp add: backTrack_loop_recurse split: option.splits)
    show ?thesis
      using recurse IH[OF s1] Cons.IH[OF rest] by (simp add: backTrack_loop_recurse)
  qed
qed

lemma backTrack_Suc_fuel:
  "backTrack fuel currentWord currentCell depth s = Some s' \<Longrightarrow>
   backTrack (Suc fuel) currentWord currentCell depth s = Some s'"
proof (induction fuel arbitrary: currentWord currentCell depth s s')
  case 0
  then show ?case by simp
next
  case (Suc fuel)
  from Suc.prems have
    "backTrack_loop fuel currentWord (depth + 1) (getAdjacent (game s) currentCell)
       (if emits s currentWord then foundWord currentWord s else s) = Some s'"
    by (simp add: backTrack_Suc)
  then have
    "backTrack_loop (Suc fuel) currentWord (depth + 1) (getAdjacent (game s) currentCell)
       (if emits s currentWord then foundWord currentWord s else s) = Some s'"
    by (rule backTrack_loop_more_fuel[rotated]) (rule Suc.IH)
  then show ?case by (simp add: backTrack_Suc)
qed

lemma backTrack_more_fuel:
  assumes "backTrack fuel currentWord currentCell depth s = Some s'" and "fuel \<le> fuel'"
  shows "backTrack fuel' currentWord currentCell depth s = Some s'"
  using assms(2,1) by (induction rule: dec_induct) (simp_all add: backTrack_Suc_fuel)

lemma forEach_board_returns:
  "length (board (game s)) < fuel \<Longrightarrow> forEach_board fuel cells s \<noteq> None"
proof (induction cells arbitrary: s)
  case Nil
  then show ?case by simp
next
  case (Cons cell cells)
  obtain l i where cell: "cell = (l, i)" by (cases cell)
  have "unvisited (s\<lparr>path := []\<rparr>) < fuel"
    using Cons.prems by (simp add: unvisited_empty_path)
  then obtain s1 where s1: "backTrack fuel l i 0 (s\<lparr>path := []\<rparr>) = Some s1"
    using backTrack_returns by blast
  have "step_ok (s\<lparr>path := []\<rparr>) s1"
    by (rule backTrack_step_ok[OF s1])
  then have "game s1 = game s"
    by (simp add: step_ok_def)
  then have "forEach_board fuel cells s1 \<noteq> None"
    using Cons.prems by (intro Cons.IH) simp
  then show ?case using cell s1 by simp
qed

lemma forEach_board_more_fuel:
  "forEach_board fuel cells s = Some s' \<Longrightarrow> fuel \<le> fuel' \<Longrightarrow>
   forEach_board fuel' cells s = Some s'"
proof (induction cells arbitrary: s)
  case Nil
  then show ?case by simp
next
  case (Cons cell cells)
  obtain l i where cell: "cell = (l, i)" by (cases cell)
  with Cons.prems obtain s1 where
    s1: "backTrack fuel l i 0 (s\<lparr>path := []\<rparr>) = Some s1"
    and rest: "forEach_board fuel cells s1 = Some s'"
    by (auto split: option.splits)
  show ?case
    using cell backTrack_more_fuel[OF s1 Cons.prems(2)] Cons.IH[OF rest Cons.prems(2)] by simp
qed

lemma solve_fuel_returns: "length (board g) < fuel \<Longrightarrow> solve_fuel fuel g \<noteq> None"
proof -
  assume "length (board g) < fuel"
  then have "forEach_board fuel (zip (board g) (map int [0..<length (board g)]))
               \<lparr>game = g, path = [], words = []\<rparr> \<noteq> None"
    by (intro forEach_board_returns) simp
  then show ?thesis by (auto simp add: solve_fuel_def)
qed

lemma solve_fuel_more_fuel:
  assumes "solve_fuel fuel g = Some r" and "fuel \<le> fuel'"
  shows "solve_fuel fuel' g = Some r"
proof -
  let ?run = "\<lambda>n. forEach_board n (zip (board g) (map int [0..<length (board g)]))
                     \<lparr>game = g, path = [], words = []\<rparr>"
  from assms(1) obtain s where s: "?run fuel = Some s" and r: "r = (words s, game s)"
    by (auto simp add: solve_fuel_def split: option.splits)
  have "?run fuel' = Some s"
    using s assms(2) by (rule forEach_board_more_fuel)
  with r show ?thesis by (simp add: solve_fuel_def)
qed

lemma solve_fuel_enough: "length (board g) < fuel \<Longrightarrow> solve_fuel fuel g = solve g"
proof -
  assume a: "length (board g) < fuel"
  have "solve_fuel (Suc (length (board g))) g \<noteq> None"
    by (rule solve_fuel_returns) simp
  then obtain r where r: "solve_fuel (Suc (length (board g))) g = Some r"
    by blast
  have "solve_fuel fuel g = Some r"
    using r by (rule solve_fuel_more_fuel) (use a in simp)
  with r show ?thesis by (simp add: solve_def)
qed

lemma solve_Some:
  "\<exists>ws. solve g = Some (ws, g) \<and> distinct ws \<and>
        (\<forall>w \<in> set ws. 3 \<le> length w \<and> hasSubString (trie g) w True)"
proof -
  let ?s0 = "\<lparr>game = g, path = [], words = []\<rparr>"
  let ?cells = "zip (board g) (map int [0..<length (board g)])"
  have "forEach_board (Suc (length (board g))) ?cells ?s0 \<noteq> None"
    by (intro forEach_board_returns) simp
  then obtain s' where s': "forEach_board (Suc (length (board g))) ?cells ?s0 = Some s'"
    by blast
  from forEach_board_step_ok[OF s'] have
    "game s' = g" "distinct (words s')"
    "\<forall>w \<in> set (words s'). 3 \<le> length w \<and> hasSubString (trie g) w True"
    by (simp_all add: emits_def)
  then show ?thesis using s' by (simp add: solve_def solve_fuel_def)
qed

section \<open>The words found are those of the calls made\<close>

lemma found_below_Nil: "found_below g w0 p0 [] = {}"
  by (simp add: found_below_def)

lemma found_below_Cons:
  "found_below g w0 p0 (n # adjacent) =
     (if extends g w0 p0 n
      then found_from g (append_letter w0 (board_at (board g) n)) n (p0 @ [n]) else {})
     \<union> found_below g w0 p0 adjacent"
  by (auto simp add: found_below_def)

lemma found_from_unfold:
  "found_from g w0 c0 p0 =
     (if 3 \<le> length w0 \<and> hasSubString (trie g) w0 True then {w0} else {})
     \<union> found_below g w0 p0 (getAdjacent g c0)"
proof (intro set_eqI iffI)
  fix w assume "w \<in> found_from g w0 c0 p0"
  then obtain c p where run: "calls g w0 c0 p0 w c p"
    and ok: "3 \<le> length w" "hasSubString (trie g) w True"
    by (auto simp add: found_from_def)
  from run show "w \<in> (if 3 \<le> length w0 \<and> hasSubString (trie g) w0 True then {w0} else {})
     \<union> found_below g w0 p0 (getAdjacent g c0)"
  proof (cases rule: calls.cases)
    case calls_self
    then show ?thesis using ok by simp
  next
    case (calls_step nextCell)
    then have "w \<in> found_from g (append_letter w0 (board_at (board g) nextCell)) nextCell (p0 @ [nextCell])"
      using ok by (auto simp add: found_from_def)
    then have "w \<in> found_below g w0 p0 (getAdjacent g c0)"
      using calls_step(1,2) by (auto simp add: found_below_def)
    then show ?thesis by simp
  qed
next
  fix w assume "w \<in> (if 3 \<le> length w0 \<and> hasSubString (trie g) w0 True then {w0} else {})
     \<union> found_below g w0 p0 (getAdjacent g c0)"
  then consider (here) "w = w0" "3 \<le> length w0" "hasSubString (trie g) w0 True"
    | (below) "w \<in> found_below g w0 p0 (getAdjacent g c0)"
    by (auto split: if_splits)
  then show "w \<in> found_from g w0 c0 p0"
  proof cases
    case here
    then show ?thesis
      using calls_self[of g w0 c0 p0] by (auto simp add: found_from_def)
  next
    case below
    then obtain n c p where n: "n \<in> set (getAdjacent g c0)" "extends g w0 p0 n"
      and run: "calls g (append_letter w0 (board_at (board g) n)) n (p0 @ [n]) w c p"
      and ok: "3 \<le> length w" "hasSubString (trie g) w True"
      by (auto simp add: found_below_def found_from_def)
    from calls_step[OF n run] ok show ?thesis
      by (auto simp add: found_from_def)
  qed
qed

lemma backTrack_loop_words:
  assumes IH: "\<And>w c d s s'. backTrack fuel w c d s = Some s' \<Longrightarrow>
                 set (words s') = set (words s) \<union> found_from (game s) w c (path s)"
  shows "backTrack_loop fuel currentWord depth adjacent s = Some s' \<Longrightarrow>
         set (words s') = set (words s) \<union> found_below (game s) currentWord (path s) adjacent"
proof (induction adjacent arbitrary: s)
  case Nil
  then show ?case by (simp add: found_below_Nil)
next
  case (Cons nextCell adjacent)
  let ?nextWord = "append_letter currentWord (board_at (board (game s)) nextCell)"
  consider (visited) "nextCell \<in> set (path s)"
    | (pruned) "nextCell \<notin> set (path s)" "\<not> hasSubString (trie (game s)) ?nextWord False"
    | (recurse) "nextCell \<notin> set (path s)" "hasSubString (trie (game s)) ?nextWord False"
    by blast
  then show ?case
  proof cases
    case visited
    then have "\<not> extends (game s) currentWord (path s) nextCell"
      by (simp add: extends_def)
    then show ?thesis using visited Cons
      by (simp add: backTrack_loop_visited found_below_Cons)
  next
    case pruned
    then have "\<not> extends (game s) currentWord (path s) nextCell"
      by (simp add: extends_def)
    then show ?thesis using pruned Cons
      by (simp add: backTrack_loop_pruned found_below_Cons)
  next
    case recurse
    then have ext: "extends (game s) currentWord (path s) nextCell"
      by (simp add: extends_def)
    from recurse Cons.prems obtain s1 where
      s1: "backTrack fuel ?nextWord nextCell depth (s\<lparr>path := path s @ [nextCell]\<rparr>) = Some s1"
      and rest: "backTrack_loop fuel currentWord depth adjacent (s1\<lparr>path := butlast (path s1)\<rparr>) = Some s'"
      by (auto simp add: backTrack_loop_recurse split: option.splits)
    let ?s2 = "s1\<lparr>path := butlast (path s1)\<rparr>"
    have "step_ok s ?s2"
      by (rule step_ok_push_pop) (rule backTrack_step_ok[OF s1])
    then have same: "game ?s2 = game s" "path ?s2 = path s"
      by (simp_all add: step_ok_def)
    have "set (words s1) = set (words s) \<union> found_from (game s) ?nextWord nextCell (path s @ [nextCell])"
      using IH[OF s1] by simp
    moreover have "set (words s') = set (words ?s2) \<union> found_below (game ?s2) currentWord (path ?s2) adjacent"
      by (rule Cons.IH[OF rest])
    ultimately have "set (words s') =
        set (words s) \<union> found_from (game s) ?nextWord nextCell (path s @ [nextCell])
        \<union> found_below (game s) currentWord (path s) adjacent"
      using same by simp
    then show ?thesis using ext by (simp add: found_below_Cons Un_assoc)
  qed
qed

lemma backTrack_words:
  "backTrack fuel currentWord currentCell depth s = Some s' \<Longrightarrow>
   set (words s') = set (words s) \<union> found_from (game s) currentWord currentCell (path s)"
proof (induction fuel arbitrary: currentWord currentCell depth s s')
  case 0
  then show ?case by simp
next
  case (Suc fuel)
  let ?s1 = "if emits s currentWord then foundWord currentWord s else s"
  have "backTrack_loop fuel currentWord (depth + 1) (getAdjacent (game s) currentCell) ?s1 = Some s'"
    using Suc.prems by (simp add: backTrack_Suc)
  then have "set (words s') = set (words ?s1) \<union>
      found_below (game ?s1) currentWord (path ?s1) (getAdjacent (game s) currentCell)"
    by (rule backTrack_loop_words[rotated]) (rule Suc.IH)
  moreover have "game ?s1 = game s" "path ?s1 = path s"
    by simp_all
  moreover have "set (words ?s1) = set (words s) \<union>
      (if 3 \<le> length currentWord \<and> hasSubString (trie (game s)) currentWord True
       then {currentWord} else {})"
    by (simp add: emits_def foundWord_words)
  ultimately have "set (words s') = set (words s) \<union>
      ((if 3 \<le> length currentWord \<and> hasSubString (trie (game s)) currentWord True
       then {currentWord} else {}) \<union>
      found_below (game s) currentWord (path s) (getAdjacent (game s) currentCell))"
    by (simp only: Un_assoc)
  then show ?case by (simp only: found_from_unfold[symmetric])
qed

lemma forEach_board_words:
  "forEach_board fuel cells s = Some s' \<Longrightarrow>
   set (words s') = set (words s) \<union> (\<Union>(l, i) \<in> set cells. found_from (game s) l i [])"
proof (induction cells arbitrary: s)
  case Nil
  then show ?case by simp
next
  case (Cons cell cells)
  obtain l i where cell: "cell = (l, i)" by (cases cell)
  with Cons.prems obtain s1 where
    s1: "backTrack fuel l i 0 (s\<lparr>path := []\<rparr>) = Some s1"
    and rest: "forEach_board fuel cells s1 = Some s'"
    by (auto split: option.splits)
  have "step_ok (s\<lparr>path := []\<rparr>) s1"
    by (rule backTrack_step_ok[OF s1])
  then have same: "game s1 = game s"
    by (simp add: step_ok_def)
  have "set (words s1) = set (words s) \<union> found_from (game s) l i []"
    using backTrack_words[OF s1] by simp
  moreover have "set (words s') = set (words s1) \<union> (\<Union>(l, i) \<in> set cells. found_from (game s1) l i [])"
    by (rule Cons.IH[OF rest])
  ultimately show ?case using same cell by (simp add: Un_assoc)
qed

lemma cells_of_board:
  "(l, i) \<in> set (zip b (map int [0..<length b])) \<longleftrightarrow> board_at b i = Some l"
proof
  assume "(l, i) \<in> set (zip b (map int [0..<length b]))"
  then obtain k where "k < length b" "b ! k = l" "int k = i"
    by (auto simp add: in_set_zip)
  then show "board_at b i = Some l"
    by (auto simp add: board_at_def)
next
  assume "board_at b i = Some l"
  then have i: "0 \<le> i" "i < int (length b)" "b ! nat i = l"
    by (auto simp add: board_at_def split: if_splits)
  then have "nat i < length b" by simp
  then have "(b ! nat i, int (nat i)) \<in> set (zip b (map int [0..<length b]))"
    by (auto simp add: in_set_zip intro!: exI[of _ "nat i"])
  then show "(l, i) \<in> set (zip b (map int [0..<length b]))"
    using i by simp
qed

text \<open>
  The words that \<^verbatim>\<open>solve\<close> returns are exactly the words of the calls its searches
  make that have three characters or more and are whole words of the trie.
\<close>

lemma solve_words:
  assumes "solve g = Some (ws, g')"
  shows "set ws = {w. \<exists>start c p. visits g start w c p \<and>
                      3 \<le> length w \<and> hasSubString (trie g) w True}"
proof -
  let ?cells = "zip (board g) (map int [0..<length (board g)])"
  from assms obtain s' where
    s': "forEach_board (Suc (length (board g))) ?cells \<lparr>game = g, path = [], words = []\<rparr> = Some s'"
    and ws: "ws = words s'"
    by (auto simp add: solve_def solve_fuel_def split: option.splits)
  have "set ws = (\<Union>(l, i) \<in> set ?cells. found_from g l i [])"
    using forEach_board_words[OF s'] ws by simp
  also have "\<dots> = {w. \<exists>start c p. visits g start w c p \<and>
                      3 \<le> length w \<and> hasSubString (trie g) w True}"
  proof (intro set_eqI iffI)
    fix w assume "w \<in> (\<Union>(l, i) \<in> set ?cells. found_from g l i [])"
    then obtain l i where "(l, i) \<in> set ?cells" and w: "w \<in> found_from g l i []"
      by blast
    then have "board_at (board g) i = Some l"
      by (simp only: cells_of_board)
    with w show "w \<in> {w. \<exists>start c p. visits g start w c p \<and>
                      3 \<le> length w \<and> hasSubString (trie g) w True}"
      unfolding found_from_def visits_def by blast
  next
    fix w assume "w \<in> {w. \<exists>start c p. visits g start w c p \<and>
                      3 \<le> length w \<and> hasSubString (trie g) w True}"
    then obtain l i where "board_at (board g) i = Some l" and w: "w \<in> found_from g l i []"
      unfolding found_from_def visits_def by blast
    then have "(l, i) \<in> set ?cells"
      by (simp only: cells_of_board)
    with w show "w \<in> (\<Union>(l, i) \<in> set ?cells. found_from g l i [])"
      by blast
  qed
  finally show ?thesis .
qed

section \<open>The path of a call\<close>

lemma append_letter_cell_text:
  "append_letter w (board_at (board g) n) = w @ cell_text g n"
  by (simp add: append_letter_def cell_text_def)

lemma calls_path:
  assumes "calls g w0 c0 p0 w c p"
  shows "\<exists>q. p = p0 @ q \<and> distinct q \<and> set q \<inter> set p0 = {} \<and>
             (\<forall>n \<in> set q. isValidCell g n) \<and> w = w0 @ spell g q \<and> c = last (c0 # q)"
  using assms
proof (induction rule: calls.induct)
  case (calls_self w c p)
  then show ?case by (simp add: spell_def)
next
  case (calls_step nextCell c0 w0 p0 w c p)
  then obtain q where q: "p = (p0 @ [nextCell]) @ q" "distinct q"
    "set q \<inter> set (p0 @ [nextCell]) = {}" "\<forall>n \<in> set q. isValidCell g n"
    "w = append_letter w0 (board_at (board g) nextCell) @ spell g q" "c = last (nextCell # q)"
    by blast
  have v: "isValidCell g nextCell"
    using calls_step.hyps(1) by (rule getAdjacent_valid)
  have n: "nextCell \<notin> set p0"
    using calls_step.hyps(2) by (simp add: extends_def)
  have "p = p0 @ (nextCell # q)"
    using q(1) by simp
  moreover have "distinct (nextCell # q)"
    using q(2,3) by auto
  moreover have "set (nextCell # q) \<inter> set p0 = {}"
    using q(3) n by auto
  moreover have "\<forall>n \<in> set (nextCell # q). isValidCell g n"
    using q(4) v by simp
  moreover have "w = w0 @ spell g (nextCell # q)"
    using q(5) by (simp add: append_letter_cell_text spell_def)
  moreover have "c = last (c0 # nextCell # q)"
    using q(6) by simp
  ultimately show ?case by blast
qed

lemma board_at_valid: "board_at (board g) n = Some l \<Longrightarrow> isValidCell g n \<and> l = cell_text g n"
  by (auto simp add: board_at_def isValidCell_def cell_text_def append_letter_def split: if_splits)

text \<open>
  Within a search the path array never holds a cell twice, every cell on it is a cell of
  the board, the word is the one its cells spell, and the current cell is the last one.
  The start cell is not put on the path array.
\<close>

lemma visits_path:
  assumes "visits g start w c p"
  shows "distinct p \<and> isValidCell g start \<and> (\<forall>n \<in> set p. isValidCell g n) \<and>
         w = spell g (start # p) \<and> c = last (start # p)"
proof -
  from assms obtain l where l: "board_at (board g) start = Some l"
    and run: "calls g l start [] w c p"
    by (auto simp add: visits_def)
  from calls_path[OF run] have "distinct p" "\<forall>n \<in> set p. isValidCell g n"
    "w = l @ spell g p" "c = last (start # p)"
    by auto
  moreover have "isValidCell g start" "l = cell_text g start"
    using board_at_valid[OF l] by simp_all
  ultimately show ?thesis by (simp add: spell_def)
qed

lemma calls_stepI:
  assumes "n \<in> set (getAdjacent g c0)" and "extends g w0 p0 n"
    and "w1 = append_letter w0 (board_at (board g) n)" and "p1 = p0 @ [n]"
    and "calls g w1 n p1 w c p"
  shows "calls g w0 c0 p0 w c p"
  using assms calls_step by blast

lemma visitsI:
  assumes "board_at (board g) start = Some l" and "calls g l start [] w c p"
  shows "visits g start w c p"
  using assms by (auto simp add: visits_def)

lemma spell_lower_case:
  assumes "\<forall>cell \<in> set (board g). toLowerCase cell = cell"
    and "\<forall>n \<in> set cells. isValidCell g n"
  shows "toLowerCase (spell g cells) = spell g cells"
proof -
  have "toLowerCase (cell_text g n) = cell_text g n" if "n \<in> set cells" for n
  proof -
    from that assms(2) have r: "0 \<le> n" "n < int (length (board g))"
      by (simp_all add: isValidCell_def)
    then have i: "nat n < length (board g)"
      by linarith
    have "cell_text g n = board g ! nat n"
      using r by (simp add: cell_text_def board_at_def append_letter_def)
    with i have "cell_text g n \<in> set (board g)"
      by simp
    with assms(1) show ?thesis by simp
  qed
  then have "map toLowerCase (map (cell_text g) cells) = map (cell_text g) cells"
    by (simp add: map_idI)
  then show ?thesis
    by (simp only: spell_def toLowerCase_concat)
qed

lemma count_list_distinct: "distinct xs \<Longrightarrow> x \<in> set xs \<Longrightarrow> count_list xs x = 1"
  by (induction xs) auto

section \<open>Adjacency\<close>

lemma getAdjacent_set:
  "set (getAdjacent g i) =
     {j \<in> {i - (width g + 1), i - width g, i - (width g - 1), i - 1, i + 1,
            i + (width g - 1), i + width g, i + (width g + 1)}. 0 \<le> j \<and> j < int (length (board g))}"
  unfolding getAdjacent_def set_filter isValidCell_def by simp

lemma next_row_start:
  fixes i w :: int
  assumes "2 \<le> w" "i mod w = w - 1"
  shows "(i + 1) mod w = 0 \<and> (i + 1) div w = i div w + 1"
proof -
  have "i = i div w * w + (w - 1)"
    using div_mult_mod_eq[of i w] assms(2) by simp
  then have e: "i + 1 = (i div w + 1) * w"
    by (simp add: algebra_simps)
  have "(i + 1) mod w = 0"
    by (subst e) simp
  moreover have "(i + 1) div w = i div w + 1"
    using assms(1) by (subst e) simp
  ultimately show ?thesis by simp
qed

lemma previous_row_end:
  fixes i w :: int
  assumes "2 \<le> w" "i mod w = 0"
  shows "(i - 1) mod w = w - 1 \<and> (i - 1) div w = i div w - 1"
proof -
  have "i = i div w * w"
    using div_mult_mod_eq[of i w] assms(2) by simp
  then have e: "i - 1 = (i div w - 1) * w + (w - 1)"
    by (simp add: algebra_simps)
  have "(i - 1) mod w = (w - 1) mod w"
    by (subst e) simp
  moreover have "(i - 1) div w = i div w - 1 + (w - 1) div w"
    using assms(1) by (subst e) simp
  ultimately show ?thesis using assms(1) by (simp add: zmod_minus1)
qed

lemma not_distinct_twice: "\<not> distinct (xs @ x # ys @ x # zs)"
  by simp

section \<open>The examples, evaluated\<close>

lemma scenario1_run: "solve scenario1 = Some ([''abc'', ''abd''], scenario1)"
  by code_simp

lemma scenario1_visits_abc: "visits scenario1 0 ''abc'' 2 [1, 2]"
proof (rule visitsI)
  show "board_at (board scenario1) 0 = Some ''a''"
    by code_simp
  show "calls scenario1 ''a'' 0 [] ''abc'' 2 [1, 2]"
  proof (rule calls_stepI[where n = 1])
    show "1 \<in> set (getAdjacent scenario1 0)" by code_simp
    show "extends scenario1 ''a'' [] 1" by code_simp
    show "''ab'' = append_letter ''a'' (board_at (board scenario1) 1)" by code_simp
    show "[1] = [] @ [1::int]" by simp
    show "calls scenario1 ''ab'' 1 [1] ''abc'' 2 [1, 2]"
    proof (rule calls_stepI[where n = 2])
      show "2 \<in> set (getAdjacent scenario1 1)" by code_simp
      show "extends scenario1 ''ab'' [1] 2" by code_simp
      show "''abc'' = append_letter ''ab'' (board_at (board scenario1) 2)" by code_simp
      show "[1, 2] = [1] @ [2::int]" by simp
      show "calls scenario1 ''abc'' 2 [1, 2] ''abc'' 2 [1, 2]" by (rule calls_self)
    qed
  qed
qed

lemma scenario1_visits_abd: "visits scenario1 0 ''abd'' 3 [1, 3]"
proof (rule visitsI)
  show "board_at (board scenario1) 0 = Some ''a''"
    by code_simp
  show "calls scenario1 ''a'' 0 [] ''abd'' 3 [1, 3]"
  proof (rule calls_stepI[where n = 1])
    show "1 \<in> set (getAdjacent scenario1 0)" by code_simp
    show "extends scenario1 ''a'' [] 1" by code_simp
    show "''ab'' = append_letter ''a'' (board_at (board scenario1) 1)" by code_simp
    show "[1] = [] @ [1::int]" by simp
    show "calls scenario1 ''ab'' 1 [1] ''abd'' 3 [1, 3]"
    proof (rule calls_stepI[where n = 3])
      show "3 \<in> set (getAdjacent scenario1 1)" by code_simp
      show "extends scenario1 ''ab'' [1] 3" by code_simp
      show "''abd'' = append_letter ''ab'' (board_at (board scenario1) 3)" by code_simp
      show "[1, 3] = [1] @ [3::int]" by simp
      show "calls scenario1 ''abd'' 3 [1, 3] ''abd'' 3 [1, 3]" by (rule calls_self)
    qed
  qed
qed

lemma upper_board_run: "solve upper_board = Some ([''ABC''], upper_board)"
  by code_simp

lemma revisit_board_run: "solve revisit_board = Some ([''aba''], revisit_board)"
  by code_simp

lemma revisit_board_visits: "visits revisit_board 0 ''aba'' 0 [1, 0]"
proof (rule visitsI)
  show "board_at (board revisit_board) 0 = Some ''a''"
    by code_simp
  show "calls revisit_board ''a'' 0 [] ''aba'' 0 [1, 0]"
  proof (rule calls_stepI[where n = 1])
    show "1 \<in> set (getAdjacent revisit_board 0)" by code_simp
    show "extends revisit_board ''a'' [] 1" by code_simp
    show "''ab'' = append_letter ''a'' (board_at (board revisit_board) 1)" by code_simp
    show "[1] = [] @ [1::int]" by simp
    show "calls revisit_board ''ab'' 1 [1] ''aba'' 0 [1, 0]"
    proof (rule calls_stepI[where n = 0])
      show "0 \<in> set (getAdjacent revisit_board 1)" by code_simp
      show "extends revisit_board ''ab'' [1] 0" by code_simp
      show "''aba'' = append_letter ''ab'' (board_at (board revisit_board) 0)" by code_simp
      show "[1, 0] = [1] @ [0::int]" by simp
      show "calls revisit_board ''aba'' 0 [1, 0] ''aba'' 0 [1, 0]" by (rule calls_self)
    qed
  qed
qed

lemma revisit_board_cells:
  assumes "isValidCell revisit_board n"
  shows "length (cell_text revisit_board n) = 1 \<and> (cell_text revisit_board n = ''a'' \<longrightarrow> n = 0)"
proof -
  have "length (board revisit_board) = 4"
    by (simp add: revisit_board_def new_BoggleGame_def)
  with assms have "0 \<le> n \<and> n < 4"
    by (simp add: isValidCell_def)
  then consider "n = 0" | "n = 1" | "n = 2" | "n = 3"
    by linarith
  then show ?thesis
    by cases
      (simp_all add: cell_text_def board_at_def append_letter_def revisit_board_def
        new_BoggleGame_def)
qed

lemma length_one: "length xs = 1 \<Longrightarrow> \<exists>x. xs = [x]"
  by (cases xs) simp_all

lemma revisit_board_only_by_revisiting:
  assumes "visits revisit_board start ''aba'' c p"
  shows "\<not> distinct (start # p)"
proof -
  let ?g = revisit_board
  from visits_path[OF assms] have
    valid: "isValidCell ?g start" "\<forall>n \<in> set p. isValidCell ?g n"
    and sp: "''aba'' = spell ?g (start # p)"
    by simp_all
  have len: "length (spell ?g cells) = length cells" if "\<forall>n \<in> set cells. isValidCell ?g n" for cells
    using that by (induction cells) (simp_all add: spell_def revisit_board_cells)
  have "length (spell ?g (start # p)) = length (start # p)"
    using valid by (intro len) simp
  with sp have "length p = 2"
    by (metis length_Cons list.size(3) numeral_2_eq_2 numeral_3_eq_3 old.nat.inject)
  then obtain x y where p: "p = [x, y]"
    by (metis (no_types, opaque_lifting) One_nat_def Suc_1 length_0_conv length_Suc_conv)
  obtain a where a: "cell_text ?g start = [a]"
    using revisit_board_cells[OF valid(1)] length_one by blast
  obtain b where b: "cell_text ?g x = [b]"
    using valid(2) p revisit_board_cells[of x] length_one by auto
  obtain d where d: "cell_text ?g y = [d]"
    using valid(2) p revisit_board_cells[of y] length_one by auto
  from sp p a b d have "a = CHR ''a''" "d = CHR ''a''"
    by (auto simp add: spell_def)
  then have "start = 0" "y = 0"
    using a d valid p revisit_board_cells[of start] revisit_board_cells[of y] by simp_all
  with p show ?thesis by simp
qed

lemma two_paths_run: "solve two_paths = Some ([''abc''], two_paths)"
  by code_simp

lemma two_paths_visits_right: "visits two_paths 0 ''abc'' 3 [1, 3]"
proof (rule visitsI)
  show "board_at (board two_paths) 0 = Some ''a''"
    by code_simp
  show "calls two_paths ''a'' 0 [] ''abc'' 3 [1, 3]"
  proof (rule calls_stepI[where n = 1])
    show "1 \<in> set (getAdjacent two_paths 0)" by code_simp
    show "extends two_paths ''a'' [] 1" by code_simp
    show "''ab'' = append_letter ''a'' (board_at (board two_paths) 1)" by code_simp
    show "[1] = [] @ [1::int]" by simp
    show "calls two_paths ''ab'' 1 [1] ''abc'' 3 [1, 3]"
    proof (rule calls_stepI[where n = 3])
      show "3 \<in> set (getAdjacent two_paths 1)" by code_simp
      show "extends two_paths ''ab'' [1] 3" by code_simp
      show "''abc'' = append_letter ''ab'' (board_at (board two_paths) 3)" by code_simp
      show "[1, 3] = [1] @ [3::int]" by simp
      show "calls two_paths ''abc'' 3 [1, 3] ''abc'' 3 [1, 3]" by (rule calls_self)
    qed
  qed
qed

lemma two_paths_visits_down: "visits two_paths 0 ''abc'' 3 [2, 3]"
proof (rule visitsI)
  show "board_at (board two_paths) 0 = Some ''a''"
    by code_simp
  show "calls two_paths ''a'' 0 [] ''abc'' 3 [2, 3]"
  proof (rule calls_stepI[where n = 2])
    show "2 \<in> set (getAdjacent two_paths 0)" by code_simp
    show "extends two_paths ''a'' [] 2" by code_simp
    show "''ab'' = append_letter ''a'' (board_at (board two_paths) 2)" by code_simp
    show "[2] = [] @ [2::int]" by simp
    show "calls two_paths ''ab'' 2 [2] ''abc'' 3 [2, 3]"
    proof (rule calls_stepI[where n = 3])
      show "3 \<in> set (getAdjacent two_paths 2)" by code_simp
      show "extends two_paths ''ab'' [2] 3" by code_simp
      show "''abc'' = append_letter ''ab'' (board_at (board two_paths) 3)" by code_simp
      show "[2, 3] = [2] @ [3::int]" by simp
      show "calls two_paths ''abc'' 3 [2, 3] ''abc'' 3 [2, 3]" by (rule calls_self)
    qed
  qed
qed

lemma one_column_run: "solve one_column = Some ([''aab''], one_column)"
  by code_simp

lemma wrap_board_fields:
  "width wrap_board = 3" "height wrap_board = 2" "length (board wrap_board) = 6"
  by (simp_all add: wrap_board_def new_BoggleGame_def)

section \<open>The claims\<close>

text \<open>
  C1 says that the cells a returned word was formed from, the start cell first, are
  pairwise different, the start cell being on the visited path from the beginning.
  \<^verbatim>\<open>solve\<close> hands every search an empty path array, so the start cell can be entered
  again. On the 2x2 board \<open>a b / c d\<close> with the dictionary \<open>aba\<close> the call returns
  \<open>aba\<close>, formed from the cells 0, 1, 0, and every call that forms this word uses a
  cell twice.
\<close>

theorem solve_revisits_start_cell:
  "solve revisit_board = Some ([''aba''], revisit_board) \<and>
   visits revisit_board 0 ''aba'' 0 [1, 0] \<and>
   (\<forall>start c p. visits revisit_board start ''aba'' c p \<longrightarrow> \<not> distinct (start # p))"
  using revisit_board_run revisit_board_visits revisit_board_only_by_revisiting by blast

theorem solve_revisits_start_cell_witness:
  "visits revisit_board 0 ''aba'' 0 [1, 0] \<and> \<not> distinct (0 # [1, 0 :: int]) \<and>
   ''aba'' \<in> set (fst (the (solve revisit_board)))"
  using solve_revisits_start_cell by simp

text \<open>
  C2, as stated: on the 2x2 board \<open>a b / c d\<close> with the dictionary
  \<open>ab, abc, abd, xyz\<close>, \<^verbatim>\<open>solve\<close> returns exactly \<open>abc\<close>. It does not: the
  cells 1 and 3 are neighbours, so \<open>abd\<close> is found along 0, 1, 3 as well.
\<close>

theorem scenario1_result_counterexample:
  "solve scenario1 \<noteq> Some ([''abc''], scenario1) \<and> ''abd'' \<in> set (fst (the (solve scenario1)))"
  by (simp add: scenario1_run)

text \<open>
  C2, amended: on that board and dictionary \<^verbatim>\<open>solve\<close> returns exactly \<open>abc\<close>
  and \<open>abd\<close>, in this order: \<open>abc\<close> is formed from the cells 0, 1, 2 and \<open>abd\<close>
  from the cells 0, 1, 3; the dictionary word \<open>ab\<close>, shorter than three letters, and
  \<open>xyz\<close> are not in the result.
\<close>

theorem scenario1_result:
  "solve scenario1 = Some ([''abc'', ''abd''], scenario1) \<and>
   visits scenario1 0 ''abc'' 2 [1, 2] \<and> visits scenario1 0 ''abd'' 3 [1, 3] \<and>
   ''ab'' \<in> set (dictionary scenario1) \<and> ''ab'' \<notin> set [''abc'', ''abd''] \<and>
   ''xyz'' \<notin> set [''abc'', ''abd'']"
  using scenario1_run scenario1_visits_abc scenario1_visits_abd
  by (simp add: scenario1_def new_BoggleGame_def)

text \<open>
  C3, as stated: every word returned equals the lower-casing of some dictionary entry. On a
  board of capital letters the word returned is in capitals, and no lower-cased entry
  equals it.
\<close>

theorem solve_in_dictionary_counterexample:
  "solve upper_board = Some ([''ABC''], upper_board) \<and>
   ''ABC'' \<notin> toLowerCase ` set (dictionary upper_board)"
proof -
  have "toLowerCase ` set (dictionary upper_board) = {''abc''}"
    by (simp add: upper_board_def new_BoggleGame_def) code_simp
  then show ?thesis using upper_board_run by simp
qed

text \<open>
  C3, amended: for a game made by the constructor, \<^verbatim>\<open>solve\<close> returns, and every word
  it returns is in the dictionary up to case: its lower-casing is the lower-casing of some dictionary
  entry. When every cell of the board is in lower case, the word itself is the lower-casing
  of some dictionary entry.
\<close>

theorem solve_in_dictionary:
  "\<exists>ws. solve (new_BoggleGame w h b d) = Some (ws, new_BoggleGame w h b d) \<and>
     (\<forall>x \<in> set ws.
        (\<exists>e \<in> set d. toLowerCase x = toLowerCase e) \<and>
        ((\<forall>cell \<in> set b. toLowerCase cell = cell) \<longrightarrow> (\<exists>e \<in> set d. x = toLowerCase e)))"
proof -
  let ?g = "new_BoggleGame w h b d"
  have fields: "board ?g = b" "trie ?g = new_Trie d"
    by (simp_all add: new_BoggleGame_def)
  obtain ws where ws: "solve ?g = Some (ws, ?g)"
    using solve_Some[of ?g] by blast
  have "(\<exists>e \<in> set d. toLowerCase x = toLowerCase e) \<and>
        ((\<forall>cell \<in> set b. toLowerCase cell = cell) \<longrightarrow> (\<exists>e \<in> set d. x = toLowerCase e))"
    if x: "x \<in> set ws" for x
  proof -
    from x solve_words[OF ws] obtain start c p where
      v: "visits ?g start x c p" and t: "hasSubString (trie ?g) x True"
      by blast
    from t have "toLowerCase x \<in> toLowerCase ` set d"
      by (simp only: fields hasSubString_terminal_iff)
    then have first: "\<exists>e \<in> set d. toLowerCase x = toLowerCase e"
      by blast
    have "\<exists>e \<in> set d. x = toLowerCase e" if low: "\<forall>cell \<in> set b. toLowerCase cell = cell"
    proof -
      from visits_path[OF v] have "x = spell ?g (start # p)"
        "\<forall>n \<in> set (start # p). isValidCell ?g n"
        by simp_all
      then have "toLowerCase x = x"
        using low spell_lower_case[of ?g "start # p"] by (simp only: fields)
      with first show ?thesis by simp
    qed
    with first show ?thesis by blast
  qed
  with ws show ?thesis by blast
qed

theorem solve_in_dictionary_witness:
  "solve upper_board = Some ([''ABC''], upper_board) \<and>
   (\<exists>e \<in> set [''abc'']. toLowerCase ''ABC'' = toLowerCase e) \<and>
   solve scenario1 = Some ([''abc'', ''abd''], scenario1) \<and>
   (\<exists>e \<in> set [''ab'', ''abc'', ''abd'', ''xyz'']. ''abd'' = toLowerCase e)"
proof -
  have low: "\<forall>cell \<in> set [''a'', ''b'', ''c'', ''d'']. toLowerCase cell = cell"
    by code_simp
  have "\<exists>e \<in> set [''abc'']. toLowerCase ''ABC'' = toLowerCase e"
    using solve_in_dictionary[of 3 1 "[''A'', ''B'', ''C'']" "[''abc'']"] upper_board_run
    by (simp add: upper_board_def)
  moreover have "\<exists>e \<in> set [''ab'', ''abc'', ''abd'', ''xyz'']. ''abd'' = toLowerCase e"
    using solve_in_dictionary[of 2 2 "[''a'', ''b'', ''c'', ''d'']"
        "[''ab'', ''abc'', ''abd'', ''xyz'']"] scenario1_run low
    by (simp add: scenario1_def)
  ultimately show ?thesis
    using upper_board_run scenario1_run by blast
qed

text \<open>C4: \<^verbatim>\<open>solve\<close> returns, and every word it returns has at least three characters,
  whatever the dictionary holds and the board spells.\<close>

theorem solve_min_length:
  "\<exists>ws. solve g = Some (ws, g) \<and> (\<forall>x \<in> set ws. 3 \<le> length x)"
  using solve_Some[of g] by blast

theorem solve_min_length_witness:
  "solve scenario1 = Some ([''abc'', ''abd''], scenario1) \<and>
   ''ab'' \<in> set (dictionary scenario1) \<and>
   3 \<le> length ''abc'' \<and> 3 \<le> length ''abd''"
  using solve_min_length[of scenario1] scenario1_run
  by (simp add: scenario1_def new_BoggleGame_def)

text \<open>
  C5: \<^verbatim>\<open>solve\<close> returns, and the list it returns has no word twice. A word formed by any call
  of any search, along whatever cells, that passes the guard of the callback is in the list
  exactly once; the callback leaves the state as it is when the word is already listed.
\<close>

theorem solve_distinct:
  "\<exists>ws. solve g = Some (ws, g) \<and> distinct ws \<and>
     (\<forall>w start c p. visits g start w c p \<and> 3 \<le> length w \<and> hasSubString (trie g) w True
        \<longrightarrow> count_list ws w = 1) \<and>
     (\<forall>w s. w \<in> set (words s) \<longrightarrow> foundWord w s = s)"
proof -
  obtain ws where ws: "solve g = Some (ws, g)" and d: "distinct ws"
    using solve_Some[of g] by blast
  have "count_list ws w = 1"
    if "visits g start w c p" "3 \<le> length w" "hasSubString (trie g) w True" for w start c p
  proof -
    have "w \<in> set ws"
      using that solve_words[OF ws] by blast
    with d show ?thesis
      by (rule count_list_distinct)
  qed
  with ws d foundWord_again show ?thesis by blast
qed

theorem solve_distinct_witness:
  "solve two_paths = Some ([''abc''], two_paths) \<and>
   visits two_paths 0 ''abc'' 3 [1, 3] \<and> visits two_paths 0 ''abc'' 3 [2, 3] \<and>
   distinct [''abc''] \<and> count_list [''abc''] ''abc'' = 1"
proof -
  have "3 \<le> length ''abc''" by simp
  moreover have "hasSubString (trie two_paths) ''abc'' True" by code_simp
  ultimately show ?thesis
    using solve_distinct[of two_paths] two_paths_run two_paths_visits_right
      two_paths_visits_down
    by simp
qed

text \<open>
  C6: every word of the list a trie is built from is found by the whole-word query, and each
  of its prefixes, the word itself included, by the prefix query; the same holds for a query
  that differs from the word or the prefix in case only.
\<close>

theorem trie_round_trip:
  assumes "w \<in> set ws"
  shows "hasSubString (new_Trie ws) w True \<and>
         (\<forall>p. prefix p w \<longrightarrow> hasSubString (new_Trie ws) p False) \<and>
         (\<forall>q. toLowerCase q = toLowerCase w \<longrightarrow> hasSubString (new_Trie ws) q True) \<and>
         (\<forall>p q. prefix p w \<and> toLowerCase q = toLowerCase p \<longrightarrow>
                 hasSubString (new_Trie ws) q False)"
proof (intro conjI allI impI)
  show "hasSubString (new_Trie ws) w True"
    using assms by (simp add: hasSubString_terminal_iff)
next
  fix p assume "prefix p w"
  then have "prefix (toLowerCase p) (toLowerCase w)"
    by (rule toLowerCase_prefix)
  then show "hasSubString (new_Trie ws) p False"
    using assms by (auto simp add: hasSubString_prefix_iff)
next
  fix q assume "toLowerCase q = toLowerCase w"
  then show "hasSubString (new_Trie ws) q True"
    using assms by (simp add: hasSubString_terminal_iff)
next
  fix p q assume "prefix p w \<and> toLowerCase q = toLowerCase p"
  then have "prefix (toLowerCase q) (toLowerCase w)"
    by (simp add: toLowerCase_prefix)
  then show "hasSubString (new_Trie ws) q False"
    using assms by (auto simp add: hasSubString_prefix_iff)
qed

theorem trie_round_trip_witness:
  "''toe'' \<in> set [''To'', ''toe''] \<and>
   hasSubString (new_Trie [''To'', ''toe'']) ''toe'' True \<and>
   (prefix ''to'' ''toe'' \<and> hasSubString (new_Trie [''To'', ''toe'']) ''to'' False) \<and>
   (toLowerCase ''TOE'' = toLowerCase ''toe'' \<and>
    hasSubString (new_Trie [''To'', ''toe'']) ''TOE'' True) \<and>
   (toLowerCase ''tO'' = toLowerCase ''to'' \<and>
    hasSubString (new_Trie [''To'', ''toe'']) ''tO'' False)"
proof -
  have a: "''toe'' \<in> set [''To'', ''toe'']" by simp
  have b: "prefix ''to'' ''toe''" by simp
  have c: "toLowerCase ''TOE'' = toLowerCase ''toe''" by code_simp
  have d: "toLowerCase ''tO'' = toLowerCase ''to''" by code_simp
  from trie_round_trip[OF a] a b c d show ?thesis by blast
qed

text \<open>
  C7: the neighbours computed for a cell are the eight candidates that lie in
  \<open>0 \<le> j < width * height\<close>, with no test on rows. On a board at least two cells wide,
  the last cell of a row that is not the last cell of the board has the first cell of the
  next row among them, and the first cell of a row other than cell 0 has the last cell of
  the row before.
\<close>

theorem getAdjacent_wraps_rows:
  assumes "2 \<le> width g" and "int (length (board g)) = width g * height g"
    and "0 \<le> i" and "i < width g * height g"
  shows "set (getAdjacent g i) =
           {j \<in> {i - (width g + 1), i - width g, i - (width g - 1), i - 1, i + 1,
                  i + (width g - 1), i + width g, i + (width g + 1)}.
              0 \<le> j \<and> j < width g * height g} \<and>
         (i mod width g = width g - 1 \<and> i \<noteq> width g * height g - 1 \<longrightarrow>
           i + 1 \<in> set (getAdjacent g i) \<and>
           (i + 1) mod width g = 0 \<and> (i + 1) div width g = i div width g + 1) \<and>
         (i mod width g = 0 \<and> 0 < i \<longrightarrow>
           i - 1 \<in> set (getAdjacent g i) \<and>
           (i - 1) mod width g = width g - 1 \<and> (i - 1) div width g = i div width g - 1)"
proof (intro conjI)
  show "set (getAdjacent g i) =
           {j \<in> {i - (width g + 1), i - width g, i - (width g - 1), i - 1, i + 1,
                  i + (width g - 1), i + width g, i + (width g + 1)}.
              0 \<le> j \<and> j < width g * height g}"
    by (simp only: getAdjacent_set assms(2))
  show "i mod width g = width g - 1 \<and> i \<noteq> width g * height g - 1 \<longrightarrow>
           i + 1 \<in> set (getAdjacent g i) \<and>
           (i + 1) mod width g = 0 \<and> (i + 1) div width g = i div width g + 1"
    using assms next_row_start[of "width g" i] by (simp add: getAdjacent_set)
  show "i mod width g = 0 \<and> 0 < i \<longrightarrow>
           i - 1 \<in> set (getAdjacent g i) \<and>
           (i - 1) mod width g = width g - 1 \<and> (i - 1) div width g = i div width g - 1"
    using assms previous_row_end[of "width g" i] by (simp add: getAdjacent_set)
qed

theorem getAdjacent_wraps_rows_witness:
  "(2 \<le> width wrap_board \<and> int (length (board wrap_board)) = width wrap_board * height wrap_board) \<and>
   ((2::int) mod 3 = 3 - 1 \<and> 2 + 1 \<in> set (getAdjacent wrap_board 2) \<and> (2 + 1) mod 3 = (0::int)) \<and>
   ((3::int) mod 3 = 0 \<and> 3 - 1 \<in> set (getAdjacent wrap_board 3) \<and> (3 - 1) mod 3 = (2::int))"
proof -
  have a: "2 \<le> width wrap_board" "int (length (board wrap_board)) = width wrap_board * height wrap_board"
    by (simp_all add: wrap_board_fields)
  have r: "(0::int) \<le> 2" "2 < width wrap_board * height wrap_board"
    by (simp_all add: wrap_board_fields)
  have l: "(0::int) \<le> 3" "3 < width wrap_board * height wrap_board"
    by (simp_all add: wrap_board_fields)
  from getAdjacent_wraps_rows[OF a r] getAdjacent_wraps_rows[OF a l] a
  show ?thesis by (simp add: wrap_board_fields)
qed

text \<open>
  C8: \<^verbatim>\<open>solve\<close> returns and leaves the game as it found it (the board, the dictionary and the
  trie with all its nodes), and a second call on the game returns the same list. Every call
  of \<^verbatim>\<open>backTrack\<close> that returns leaves the game and the path array as it found them;
  the list of words found is all that changes.
\<close>

theorem solve_no_side_effects:
  "\<exists>ws. solve g = Some (ws, g) \<and>
     (\<forall>ws' g'. solve g = Some (ws', g') \<longrightarrow>
        g' = g \<and> board g' = board g \<and> dictionary g' = dictionary g \<and> trie g' = trie g \<and>
        solve g' = Some (ws', g')) \<and>
     (\<forall>fuel currentWord currentCell depth s s'.
        backTrack fuel currentWord currentCell depth s = Some s' \<longrightarrow>
        game s' = game s \<and> path s' = path s)"
proof -
  obtain ws where ws: "solve g = Some (ws, g)"
    using solve_Some[of g] by blast
  have "game s' = game s \<and> path s' = path s"
    if "backTrack fuel currentWord currentCell depth s = Some s'"
    for fuel currentWord currentCell depth s s'
    using backTrack_step_ok[OF that] by (simp add: step_ok_def)
  with ws show ?thesis by simp
qed

theorem solve_no_side_effects_witness:
  "solve scenario1 = Some ([''abc'', ''abd''], scenario1) \<and>
   solve (snd (the (solve scenario1))) = Some ([''abc'', ''abd''], scenario1)"
  using solve_no_side_effects[of scenario1] scenario1_run by simp

text \<open>
  C9: the prefix query on the empty string is true on every trie; the whole-word query on
  the empty string is true exactly when the empty string is among the words given to the
  constructor or added since; adding the empty string marks the root terminal and changes
  nothing else.
\<close>

theorem empty_string_queries:
  "hasSubString t '''' False \<and>
   (hasSubString (foldl addWord (new_Trie ws) vs) '''' True \<longleftrightarrow> '''' \<in> set ws \<union> set vs) \<and>
   root (addWord t '''') =
     TrieNode (letter (root t)) (children (root t)) (hasChildren (root t)) True \<and>
   hasSubString (new_Trie []) '''' False \<and> \<not> hasSubString (new_Trie []) '''' True"
proof (intro conjI)
  show "hasSubString t '''' False"
    by (simp add: hasSubString_def toLowerCase_def)
  show "hasSubString (foldl addWord (new_Trie ws) vs) '''' True \<longleftrightarrow> '''' \<in> set ws \<union> set vs"
  proof -
    have "toLowerCase '''' = ''''" by (simp add: toLowerCase_def)
    then have "hasSubString (new_Trie (ws @ vs)) '''' True \<longleftrightarrow>
               '''' \<in> toLowerCase ` set (ws @ vs)"
      by (simp only: hasSubString_terminal_iff)
    also have "\<dots> \<longleftrightarrow> '''' \<in> set ws \<union> set vs"
      by (simp only: Nil_in_toLowerCase_image set_append)
    finally show ?thesis by (simp only: new_Trie_append)
  qed
  show "root (addWord t '''') =
     TrieNode (letter (root t)) (children (root t)) (hasChildren (root t)) True"
    by (simp add: addWord_def toLowerCase_def)
  show "hasSubString (new_Trie []) '''' False"
    by (simp add: hasSubString_def toLowerCase_def)
  show "\<not> hasSubString (new_Trie []) '''' True"
    by (simp add: hasSubString_terminal_iff)
qed

theorem empty_string_queries_witness:
  "hasSubString (new_Trie [''abc'']) '''' False \<and>
   \<not> hasSubString (foldl addWord (new_Trie [''abc'']) [''de'']) '''' True \<and>
   hasSubString (foldl addWord (new_Trie [''abc'']) ['''']) '''' True"
  using empty_string_queries[of "new_Trie [''abc'']" "[''abc'']" "[''de'']"]
    empty_string_queries[of "new_Trie [''abc'']" "[''abc'']" "['''']"]
  by simp

text \<open>
  C10: on a board one cell wide the neighbours computed for a cell \<open>i\<close> of the board are
  the cells of the board among \<open>i - 2, i - 1, i, i - 1, i + 1, i, i + 1, i + 2\<close>: the cell
  itself is among them, twice, and so are \<open>i - 2\<close> and \<open>i + 2\<close> when they are cells of
  the board. So the search started at \<open>i\<close> calls \<^verbatim>\<open>backTrack\<close> for the cell \<open>i\<close>
  again, with the letter of the cell doubled, whenever the doubled letter is a prefix in
  the trie.
\<close>

theorem one_column_adjacent:
  assumes "width g = 1" and "isValidCell g i"
  shows "getAdjacent g i =
           filter (isValidCell g) [i - 2, i - 1, i, i - 1, i + 1, i, i + 1, i + 2] \<and>
         i \<in> set (getAdjacent g i) \<and> \<not> distinct (getAdjacent g i) \<and>
         (i - 2 \<in> set (getAdjacent g i) \<longleftrightarrow> isValidCell g (i - 2)) \<and>
         (i + 2 \<in> set (getAdjacent g i) \<longleftrightarrow> isValidCell g (i + 2)) \<and>
         (\<forall>l. board_at (board g) i = Some l \<and> hasSubString (trie g) (l @ l) False \<longrightarrow>
              visits g i (l @ l) i [i])"
proof -
  have adj: "getAdjacent g i =
      filter (isValidCell g) [i - 2, i - 1, i, i - 1, i + 1, i, i + 1, i + 2]"
    using assms(1) by (simp add: getAdjacent_def)
  have split: "[i - 2, i - 1, i, i - 1, i + 1, i, i + 1, i + 2] =
      [i - 2, i - 1] @ i # [i - 1, i + 1] @ i # [i + 1, i + 2]"
    by simp
  have shape: "getAdjacent g i =
      filter (isValidCell g) [i - 2, i - 1] @ i # filter (isValidCell g) [i - 1, i + 1]
        @ i # filter (isValidCell g) [i + 1, i + 2]"
    unfolding adj split filter_append using assms(2) by simp
  have mem: "i \<in> set (getAdjacent g i)"
    by (subst shape) simp
  have dup: "\<not> distinct (getAdjacent g i)"
    by (subst shape) (rule not_distinct_twice)
  have lo: "i - 2 \<in> set (getAdjacent g i) \<longleftrightarrow> isValidCell g (i - 2)"
    unfolding adj set_filter by simp
  have hi: "i + 2 \<in> set (getAdjacent g i) \<longleftrightarrow> isValidCell g (i + 2)"
    unfolding adj set_filter by simp
  have again: "visits g i (l @ l) i [i]"
    if l: "board_at (board g) i = Some l" and pre: "hasSubString (trie g) (l @ l) False" for l
  proof (rule visitsI[OF l], rule calls_stepI[where n = i])
    show "i \<in> set (getAdjacent g i)" by (rule mem)
    show "extends g l [] i" using l pre by (simp add: extends_def append_letter_def)
    show "l @ l = append_letter l (board_at (board g) i)" using l by (simp add: append_letter_def)
    show "[i] = [] @ [i]" by simp
    show "calls g (l @ l) i [i] (l @ l) i [i]" by (rule calls_self)
  qed
  from adj mem dup lo hi again show ?thesis by blast
qed

theorem one_column_adjacent_witness:
  "(width one_column = 1 \<and> isValidCell one_column 0) \<and>
   getAdjacent one_column 0 = [0, 1, 0, 1] \<and>
   visits one_column 0 ''aa'' 0 [0] \<and>
   solve one_column = Some ([''aab''], one_column)"
proof -
  have a: "width one_column = 1" by (simp add: one_column_def new_BoggleGame_def)
  have b: "isValidCell one_column 0" by code_simp
  have c: "board_at (board one_column) 0 = Some ''a''" by code_simp
  have d: "hasSubString (trie one_column) (''a'' @ ''a'') False" by code_simp
  have e: "filter (isValidCell one_column) [0 - 2, 0 - 1, 0, 0 - 1, 0 + 1, 0, 0 + 1, 0 + 2]
           = [0, 1, 0, 1]" by code_simp
  from one_column_adjacent[OF a b] a b c d e one_column_run show ?thesis by simp
qed

end
